theory Spec2Isabelle
  imports Main
begin

section \<open>Python strings\<close>

text \<open>
  A Python \<open>str\<close> is a sequence of Unicode code points. The task strips with
  \<open>str.strip()\<close>, whose notion of whitespace is wider than ASCII, so a string is a list
  of code points here; \<open>str\<close> embeds a literal.
\<close>

type_synonym codepoint = nat
type_synonym pystr = "codepoint list"

definition str :: "string \<Rightarrow> pystr" where
  "str s = map of_char s"

text \<open>The code points for which \<open>str.isspace\<close> holds (the set \<open>str.strip()\<close> removes).\<close>

definition isspace :: "codepoint \<Rightarrow> bool" where
  "isspace c \<longleftrightarrow>
     (9 \<le> c \<and> c \<le> 13) \<or> (28 \<le> c \<and> c \<le> 32) \<or> c = 133 \<or> c = 160 \<or> c = 5760 \<or>
     (8192 \<le> c \<and> c \<le> 8202) \<or> c = 8232 \<or> c = 8233 \<or> c = 8239 \<or> c = 8287 \<or>
     c = 12288"

definition strip :: "pystr \<Rightarrow> pystr" where
  "strip s = rev (dropWhile isspace (rev (dropWhile isspace s)))"

text \<open>
  \<open>s.replace(old, new)\<close>: scanning from the left, each occurrence of \<open>old\<close> found is
  replaced and the scan goes on behind it, so occurrences never overlap. For an empty
  \<open>old\<close> Python puts \<open>new\<close> before every code point and at the end.
\<close>

function replace :: "pystr \<Rightarrow> pystr \<Rightarrow> pystr \<Rightarrow> pystr" where
  "replace old new [] = (if old = [] then new else [])"
| "replace old new (c # cs) =
     (if old = [] then new @ c # replace old new cs
      else if take (length old) (c # cs) = old
        then new @ replace old new (drop (length old) (c # cs))
      else c # replace old new cs)"
  by pat_completeness auto
termination
  by (relation "measure (\<lambda>(old, new, s). length s)") auto

text \<open>\<open>old in s\<close>: some position of \<open>s\<close> starts an occurrence of \<open>old\<close>.\<close>

fun contains :: "pystr \<Rightarrow> pystr \<Rightarrow> bool" where
  "contains old [] = (old = [])"
| "contains old (c # cs) = (take (length old) (c # cs) = old \<or> contains old cs)"

datatype error = IndexError | KeyError | TypeError | OSError

text \<open>A \<open>dict\<close> with string keys, in insertion order; \<open>d[k]\<close> raises on a missing key.\<close>

type_synonym 'v dict = "(string \<times> 'v) list"

definition getitem :: "'v dict \<Rightarrow> string \<Rightarrow> error + 'v" where
  "getitem d k = (case map_of d k of None \<Rightarrow> Inl KeyError | Some v \<Rightarrow> Inr v)"


section \<open>Documents\<close>

record doc =
  article :: pystr
  highlights :: pystr

text \<open>\<open>self.dataset\<close>: the three splits of the corpus, in the order they are loaded.\<close>

record dataset =
  train :: "doc list"
  validation :: "doc list"
  test :: "doc list"

definition process_doc :: "doc \<Rightarrow> doc list" where
  "process_doc doc =
     [doc\<lparr>article := strip (article doc), highlights := strip (highlights doc)\<rparr>]"

text \<open>
  The body shared by \<open>training_docs\<close>, \<open>validation_docs\<close> and \<open>test_docs\<close>, which differ
  only in the split they read. Each is a generator: the result is the documents yielded
  so far and the exception that ended the iteration, if any. \<open>answer[-1]\<close> raises
  \<open>IndexError\<close> on the empty string.
\<close>

fun split_docs :: "doc list \<Rightarrow> doc list \<times> error option" where
  "split_docs [] = ([], None)"
| "split_docs (doc # rest) =
     (let answer = strip (highlights doc) in
      if answer = [] then ([], Some IndexError)
      else
        let doc' = (if last answer \<noteq> of_char CHR ''.''
                    then doc\<lparr>highlights := answer @ str ''.''\<rparr>
                    else doc\<lparr>highlights := answer\<rparr>);
            (ys, e) = split_docs rest
        in (process_doc doc' @ ys, e))"

definition training_docs :: "dataset \<Rightarrow> doc list \<times> error option" where
  "training_docs ds = split_docs (train ds)"

definition validation_docs :: "dataset \<Rightarrow> doc list \<times> error option" where
  "validation_docs ds = split_docs (validation ds)"

definition test_docs :: "dataset \<Rightarrow> doc list \<times> error option" where
  "test_docs ds = split_docs (test ds)"

definition doc_to_text :: "doc \<Rightarrow> pystr" where
  "doc_to_text doc =
     article doc @
     str ''\<newline>\<newline>Question: What is a summary of the preceding text?\<newline>Answer:''"

definition doc_to_target :: "doc \<Rightarrow> pystr" where
  "doc_to_target doc = (let target = highlights doc in str '' '' @ target)"


section \<open>Scoring\<close>

text \<open>
  The \<open>rouge_score\<close> package is not part of the task; it is a parameter.
  \<open>score t target prediction\<close> is what a \<open>RougeScorer\<close> computes for the rouge type
  named \<open>t\<close>; \<open>aggregate t scores\<close> is \<open>result[t].mid.fmeasure\<close> of a
  \<open>BootstrapAggregator\<close> to which \<open>scores\<close> were added in this order, \<open>None\<close> when the
  aggregate has no entry for \<open>t\<close>; \<open>times100\<close> is the product with 100.
\<close>

record ('s, 'v) rouge_score =
  score :: "string \<Rightarrow> pystr \<Rightarrow> pystr \<Rightarrow> 's"
  aggregate :: "string \<Rightarrow> 's list \<Rightarrow> 'v option"
  times100 :: "'v \<Rightarrow> 'v"

definition rouge_types :: "string list" where
  "rouge_types = [''rouge1'', ''rouge2'', ''rougeLsum'']"

definition prepare_summary :: "pystr \<Rightarrow> pystr" where
  "prepare_summary summary = replace (str '' . '') (str ''.\<newline>'') summary"

text \<open>\<open>{k: f(k) for k in keys}\<close>, where \<open>f\<close> may raise.\<close>

fun dict_comp :: "string list \<Rightarrow> (string \<Rightarrow> error + 'v) \<Rightarrow> error + 'v dict" where
  "dict_comp [] f = Inr []"
| "dict_comp (k # ks) f =
     (case f k of
        Inl e \<Rightarrow> Inl e
      | Inr v \<Rightarrow> (case dict_comp ks f of Inl e \<Rightarrow> Inl e | Inr d \<Rightarrow> Inr ((k, v) # d)))"

definition rouge :: "('s, 'v) rouge_score \<Rightarrow> pystr list \<Rightarrow> pystr list \<Rightarrow> error + 'v dict" where
  "rouge lib refs preds =
     (let pairs = map (\<lambda>(ref, pred). (prepare_summary ref, prepare_summary pred))
                    (zip refs preds);
          result = (\<lambda>t. aggregate lib t (map (\<lambda>(ref, pred). score lib t ref pred) pairs))
      in dict_comp rouge_types
           (\<lambda>t. case result t of None \<Rightarrow> Inl KeyError | Some v \<Rightarrow> Inr (times100 lib v)))"

definition process_results ::
    "('s, 'v) rouge_score \<Rightarrow> doc \<Rightarrow> pystr list \<Rightarrow> error + 'v dict" where
  "process_results lib doc results =
     (case results of
        [] \<Rightarrow> Inl IndexError
      | r # _ \<Rightarrow>
          let completion = strip r; ref = highlights doc in
          (case rouge lib [ref] [completion] of
             Inl e \<Rightarrow> Inl e
           | Inr rouge_score \<Rightarrow>
               (case getitem rouge_score ''rouge1'' of
                  Inl e \<Rightarrow> Inl e
                | Inr rouge1 \<Rightarrow>
                    (case getitem rouge_score ''rouge2'' of
                       Inl e \<Rightarrow> Inl e
                     | Inr rouge2 \<Rightarrow>
                         (case getitem rouge_score ''rougeLsum'' of
                            Inl e \<Rightarrow> Inl e
                          | Inr rougeL \<Rightarrow>
                              Inr [(''rouge1'', rouge1), (''rouge2'', rouge2),
                                   (''rougeL'', rougeL)])))))"


text \<open>
  A stand-in for the package that records what it is asked: a score is the rouge type
  and the two strings scored, and the aggregate for a type is the list of the scores
  added under it, with no entry when nothing was added.
\<close>

definition recording_lib ::
    "(string \<times> pystr \<times> pystr, (string \<times> pystr \<times> pystr) list) rouge_score" where
  "recording_lib =
     \<lparr>score = (\<lambda>t ref pred. (t, ref, pred)),
      aggregate = (\<lambda>t scores. if scores = [] then None else Some scores),
      times100 = (\<lambda>v. v)\<rparr>"


section \<open>Pruning\<close>

text \<open>The class attributes a task variant sets.\<close>

record config =
  PRUNE_TOKENIZERS :: "string list option"
  PRUNE_MAX_TOKENS :: "int option"
  PRUNE_NUM_PROC :: "int option"

text \<open>
  A loaded tokenizer: the name it was loaded under and the \<open>input_ids\<close> it gives a text.
\<close>

record tokenizer =
  name_or_path :: string
  input_ids :: "pystr \<Rightarrow> nat list"

definition get_prune_text :: "doc \<Rightarrow> error + pystr" where
  "get_prune_text sample =
     (case process_doc sample of [] \<Rightarrow> Inl IndexError | d # _ \<Rightarrow> Inr (doc_to_text d))"

text \<open>
  The state of one filtering pass: the \<open>cache\<close> dictionary of \<open>prune\<close>, and a log of the
  tokenizer invocations made so far (tokenizer name and text), which the code does not
  keep and which only serves to count them.
\<close>

record filter_state =
  cache :: "pystr \<rightharpoonup> bool"
  calls :: "(string \<times> pystr) list"

text \<open>
  The \<open>for tokenizer in tokenizers\<close> loop of \<open>_filter\<close>. Comparing a length with \<open>None\<close>
  raises \<open>TypeError\<close>. The result is the verdict and the log extended by the
  invocations made.
\<close>

fun check_tokenizers ::
    "tokenizer list \<Rightarrow> int option \<Rightarrow> pystr \<Rightarrow> (string \<times> pystr) list
      \<Rightarrow> (error + bool) \<times> (string \<times> pystr) list" where
  "check_tokenizers [] mx text log = (Inr True, log)"
| "check_tokenizers (tokenizer # rest) mx text log =
     (let ids = input_ids tokenizer text; log' = log @ [(name_or_path tokenizer, text)] in
      case mx of
        None \<Rightarrow> (Inl TypeError, log')
      | Some m \<Rightarrow>
          if int (length ids) > m then (Inr False, log')
          else check_tokenizers rest mx text log')"

text \<open>\<open>_filter\<close>, the function nested in \<open>prune\<close>, with the state it closes over.\<close>

definition prune_filter ::
    "tokenizer list \<Rightarrow> int option \<Rightarrow> filter_state \<Rightarrow> doc \<Rightarrow> (error + bool) \<times> filter_state" where
  "prune_filter tokenizers mx st sample =
     (case get_prune_text sample of
        Inl e \<Rightarrow> (Inl e, st)
      | Inr text \<Rightarrow>
          (case cache st text of
             None \<Rightarrow>
               (case check_tokenizers tokenizers mx text (calls st) of
                  (Inl e, log) \<Rightarrow> (Inl e, st\<lparr>calls := log\<rparr>)
                | (Inr keep, log) \<Rightarrow> (Inr keep, st\<lparr>cache := (cache st)(text \<mapsto> keep), calls := log\<rparr>))
           | Some cached \<Rightarrow> (Inr cached, st)))"

text \<open>
  The check recomputed for one sample with no cache: the prompt text is rendered and the
  tokenizer loop is run on it.
\<close>

definition filter_uncached :: "tokenizer list \<Rightarrow> int option \<Rightarrow> doc \<Rightarrow> error + bool" where
  "filter_uncached tokenizers mx sample =
     (case get_prune_text sample of
        Inl e \<Rightarrow> Inl e
      | Inr text \<Rightarrow> fst (check_tokenizers tokenizers mx text []))"

text \<open>
  What the cache has to satisfy to be a memo of the check: every verdict stored for a
  text is the verdict the tokenizer loop gives this text.
\<close>

definition cache_ok :: "tokenizer list \<Rightarrow> int option \<Rightarrow> (pystr \<rightharpoonup> bool) \<Rightarrow> bool" where
  "cache_ok T mx c \<longleftrightarrow> (\<forall>text b. c text = Some b \<longrightarrow> fst (check_tokenizers T mx text []) = Inr b)"

text \<open>
  \<open>Dataset.filter\<close> on one split, in one process: the function is applied to the samples
  in order, those it accepts are kept as they were, and an exception ends the pass.
\<close>

fun filter_split ::
    "(filter_state \<Rightarrow> doc \<Rightarrow> (error + bool) \<times> filter_state) \<Rightarrow> filter_state \<Rightarrow> doc list
      \<Rightarrow> (error + doc list) \<times> filter_state" where
  "filter_split f st [] = (Inr [], st)"
| "filter_split f st (d # ds) =
     (case f st d of
        (Inl e, st') \<Rightarrow> (Inl e, st')
      | (Inr keep, st') \<Rightarrow>
          (case filter_split f st' ds of
             (Inl e, st'') \<Rightarrow> (Inl e, st'')
           | (Inr kept, st'') \<Rightarrow> (Inr (if keep then d # kept else kept), st'')))"

text \<open>\<open>[AutoTokenizer.from_pretrained(t) for t in names]\<close>; loading is a parameter.\<close>

fun load_tokenizers ::
    "(string \<Rightarrow> error + tokenizer) \<Rightarrow> string list \<Rightarrow> error + tokenizer list" where
  "load_tokenizers from_pretrained [] = Inr []"
| "load_tokenizers from_pretrained (n # ns) =
     (case from_pretrained n of
        Inl e \<Rightarrow> Inl e
      | Inr t \<Rightarrow>
          (case load_tokenizers from_pretrained ns of
             Inl e \<Rightarrow> Inl e
           | Inr ts \<Rightarrow> Inr (t # ts)))"

text \<open>
  \<open>prune\<close>: the new value of \<open>self.dataset\<close>. Iterating over \<open>None\<close> raises \<open>TypeError\<close>.
  The cache starts empty and is shared by the three splits.
\<close>

definition prune ::
    "config \<Rightarrow> (string \<Rightarrow> error + tokenizer) \<Rightarrow> dataset \<Rightarrow> error + dataset" where
  "prune cfg from_pretrained ds =
     (case PRUNE_TOKENIZERS cfg of
        None \<Rightarrow> Inl TypeError
      | Some names \<Rightarrow>
          (case load_tokenizers from_pretrained names of
             Inl e \<Rightarrow> Inl e
           | Inr tokenizers \<Rightarrow>
               (let f = prune_filter tokenizers (PRUNE_MAX_TOKENS cfg);
                    st0 = \<lparr>cache = Map.empty, calls = []\<rparr>
                in case filter_split f st0 (train ds) of
                     (Inl e, _) \<Rightarrow> Inl e
                   | (Inr tr, st1) \<Rightarrow>
                       (case filter_split f st1 (validation ds) of
                          (Inl e, _) \<Rightarrow> Inl e
                        | (Inr va, st2) \<Rightarrow>
                            (case filter_split f st2 (test ds) of
                               (Inl e, _) \<Rightarrow> Inl e
                             | (Inr te, _) \<Rightarrow>
                                 Inr \<lparr>train = tr, validation = va, test = te\<rparr>)))))"

text \<open>
  \<open>download\<close>: \<open>loaded\<close> is the dataset \<open>super().download\<close> stored in \<open>self.dataset\<close>. The
  condition tests \<open>PRUNE_TOKENIZERS\<close> twice, as the source does.
\<close>

definition download ::
    "config \<Rightarrow> (string \<Rightarrow> error + tokenizer) \<Rightarrow> dataset \<Rightarrow> error + dataset" where
  "download cfg from_pretrained loaded =
     (if PRUNE_TOKENIZERS cfg \<noteq> None \<and> PRUNE_TOKENIZERS cfg \<noteq> None
      then prune cfg from_pretrained loaded
      else Inr loaded)"

text \<open>
  The class attributes of \<open>CNN_DailyMail\<close> and of \<open>CNN_DailyMail_Short\<close>, whose
  \<open>PRUNE_NUM_PROC\<close> is what \<open>_num_cpu_cores()\<close> returned.
\<close>

definition CNN_DailyMail :: config where
  "CNN_DailyMail = \<lparr>PRUNE_TOKENIZERS = None, PRUNE_MAX_TOKENS = None, PRUNE_NUM_PROC = None\<rparr>"

definition CNN_DailyMail_Short :: "int option \<Rightarrow> config" where
  "CNN_DailyMail_Short num_cpu_cores =
     \<lparr>PRUNE_TOKENIZERS = Some [''PY007/TinyLlama-1.1B-Chat-v0.3''],
      PRUNE_MAX_TOKENS = Some 1280,
      PRUNE_NUM_PROC = num_cpu_cores\<rparr>"


section \<open>Stripping\<close>

lemma strip_Nil [simp]: "strip [] = []"
  by (simp add: strip_def)

lemma strip_not_space_last: "strip s \<noteq> [] \<Longrightarrow> \<not> isspace (last (strip s))"
proof -
  assume a: "strip s \<noteq> []"
  let ?r = "dropWhile isspace (rev (dropWhile isspace s))"
  from a have ne: "?r \<noteq> []" by (simp add: strip_def)
  then have "\<not> isspace (hd ?r)" by (simp add: hd_dropWhile)
  moreover have "last (strip s) = hd ?r" using ne by (simp add: strip_def last_rev)
  ultimately show ?thesis by simp
qed

lemma strip_not_space_hd: "strip s \<noteq> [] \<Longrightarrow> \<not> isspace (hd (strip s))"
proof -
  assume a: "strip s \<noteq> []"
  let ?t = "dropWhile isspace s"
  have "strip s = rev (dropWhile isspace (rev ?t))" by (simp add: strip_def)
  from a have tne: "?t \<noteq> []" by (cases "?t = []") (simp_all add: strip_def)
  then have h: "\<not> isspace (hd ?t)" by (simp add: hd_dropWhile)
  obtain x xs where t: "?t = x # xs" using tne by (cases ?t) auto
  with h have nx: "\<not> isspace x" by simp
  have "dropWhile isspace (rev xs @ [x]) = dropWhile isspace (rev xs) @ [x]"
    using nx by (simp add: dropWhile_append3)
  then have "strip s = x # rev (dropWhile isspace (rev xs))"
    using t by (simp add: strip_def)
  then show ?thesis using nx by simp
qed

lemma strip_fixed:
  assumes "s \<noteq> []" "\<not> isspace (hd s)" "\<not> isspace (last s)"
  shows "strip s = s"
proof -
  from assms have 1: "dropWhile isspace s = s" by (cases s) auto
  from assms have "rev s \<noteq> []" "\<not> isspace (hd (rev s))" by (simp_all add: hd_rev)
  then have 2: "dropWhile isspace (rev s) = rev s" by (cases "rev s") auto
  show ?thesis by (simp add: strip_def 1 2)
qed

lemma strip_idem: "strip (strip s) = strip s"
  by (cases "strip s = []") (simp_all add: strip_fixed strip_not_space_hd strip_not_space_last)

lemma isspace_dot: "\<not> isspace 46"
  by (simp add: isspace_def)

lemma strip_append_dot:
  assumes "strip s \<noteq> []"
  shows "strip (strip s @ str ''.'') = strip s @ str ''.''"
  using assms by (intro strip_fixed) (simp_all add: str_def strip_not_space_hd isspace_dot)


section \<open>Document normalisation\<close>

lemma split_docs_Cons_ok:
  "strip (highlights d) \<noteq> [] \<Longrightarrow>
   split_docs (d # rest) =
     (d\<lparr>article := strip (article d),
        highlights := (if last (strip (highlights d)) \<noteq> 46
                       then strip (highlights d) @ [46] else strip (highlights d))\<rparr>
        # fst (split_docs rest), snd (split_docs rest))"
  using strip_append_dot [of "highlights d"]
  by (simp add: Let_def process_doc_def split_beta strip_idem str_def)

lemma split_docs_Cons_raise:
  "strip (highlights d) = [] \<Longrightarrow> split_docs (d # rest) = ([], Some IndexError)"
  by simp

lemma split_docs_nth:
  "i < length (fst (split_docs xs)) \<Longrightarrow>
   i < length xs \<and> strip (highlights (xs ! i)) \<noteq> [] \<and>
   fst (split_docs xs) ! i =
     (xs ! i)\<lparr>article := strip (article (xs ! i)),
        highlights := (if last (strip (highlights (xs ! i))) \<noteq> 46
                       then strip (highlights (xs ! i)) @ [46]
                       else strip (highlights (xs ! i)))\<rparr>"
proof (induction xs arbitrary: i)
  case Nil
  then show ?case by simp
next
  case (Cons d rest)
  show ?case
  proof (cases "strip (highlights d) = []")
    case True
    with Cons.prems show ?thesis by (simp add: split_docs_Cons_raise del: split_docs.simps)
  next
    case False
    note eq = split_docs_Cons_ok [OF False, of rest]
    show ?thesis
    proof (cases i)
      case 0
      with False show ?thesis by (simp add: eq del: split_docs.simps)
    next
      case (Suc j)
      with Cons.prems have "j < length (fst (split_docs rest))"
        by (simp add: eq del: split_docs.simps)
      from Cons.IH [OF this] Suc show ?thesis by (simp add: eq del: split_docs.simps)
    qed
  qed
qed

lemma split_docs_length:
  "i < length xs \<Longrightarrow> \<forall>j\<le>i. strip (highlights (xs ! j)) \<noteq> [] \<Longrightarrow>
   i < length (fst (split_docs xs))"
proof (induction xs arbitrary: i)
  case Nil
  then show ?case by simp
next
  case (Cons d rest)
  from Cons.prems(2) have d: "strip (highlights d) \<noteq> []" by fastforce
  note eq = split_docs_Cons_ok [OF d, of rest]
  show ?case
  proof (cases i)
    case 0
    then show ?thesis by (simp add: eq del: split_docs.simps)
  next
    case (Suc k)
    with Cons.prems(1) have k: "k < length rest" by simp
    have "\<forall>j\<le>k. strip (highlights (rest ! j)) \<noteq> []"
    proof (intro allI impI)
      fix j assume "j \<le> k"
      then have "Suc j \<le> i" using Suc by simp
      with Cons.prems(2) have "strip (highlights ((d # rest) ! Suc j)) \<noteq> []" by blast
      then show "strip (highlights (rest ! j)) \<noteq> []" by simp
    qed
    from Cons.IH [OF k this] Suc show ?thesis by (simp add: eq del: split_docs.simps)
  qed
qed

text \<open>
  C7. Every document an iterator yields has a non-empty \<open>highlights\<close> that ends in a
  period. Where the stripped \<open>highlights\<close> of a source document is non-empty and does not
  end in a period (and the iteration gets as far as this document, no earlier one having
  stripped to the empty string), the yielded \<open>highlights\<close> is the stripped text followed
  by one period: the code point before that period is neither a period nor whitespace.
\<close>

theorem normalized_highlights:
  assumes "(src, out) \<in> {(train ds, training_docs ds), (validation ds, validation_docs ds),
                          (test ds, test_docs ds)}"
  shows "(\<forall>i < length (fst out).
            highlights (fst out ! i) \<noteq> [] \<and> last (highlights (fst out ! i)) = of_char CHR ''.'') \<and>
         (\<forall>i < length src.
            (\<forall>j\<le>i. strip (highlights (src ! j)) \<noteq> []) \<and>
            last (strip (highlights (src ! i))) \<noteq> of_char CHR ''.'' \<longrightarrow>
              i < length (fst out) \<and>
              highlights (fst out ! i) = strip (highlights (src ! i)) @ str ''.'' \<and>
              butlast (highlights (fst out ! i)) \<noteq> [] \<and>
              last (butlast (highlights (fst out ! i))) \<noteq> of_char CHR ''.'' \<and>
              \<not> isspace (last (butlast (highlights (fst out ! i)))))"
proof -
  from assms have out: "out = split_docs src"
    by (auto simp: training_docs_def validation_docs_def test_docs_def)
  have yielded: "highlights (fst out ! i) =
      (if last (strip (highlights (src ! i))) \<noteq> 46
       then strip (highlights (src ! i)) @ [46] else strip (highlights (src ! i))) \<and>
      strip (highlights (src ! i)) \<noteq> []" if "i < length (fst out)" for i
    using split_docs_nth [of i src] that by (simp add: out)
  have A: "highlights (fst out ! i) \<noteq> [] \<and> last (highlights (fst out ! i)) = of_char CHR ''.''"
    if "i < length (fst out)" for i
    using yielded [OF that] by simp
  have B: "i < length (fst out) \<and>
      highlights (fst out ! i) = strip (highlights (src ! i)) @ str ''.'' \<and>
      butlast (highlights (fst out ! i)) \<noteq> [] \<and>
      last (butlast (highlights (fst out ! i))) \<noteq> of_char CHR ''.'' \<and>
      \<not> isspace (last (butlast (highlights (fst out ! i))))"
    if i: "i < length src" and ne: "\<forall>j\<le>i. strip (highlights (src ! j)) \<noteq> []"
      and nd: "last (strip (highlights (src ! i))) \<noteq> of_char CHR ''.''" for i
  proof -
    have len: "i < length (fst out)" using split_docs_length [OF i ne] by (simp add: out)
    from ne have nei: "strip (highlights (src ! i)) \<noteq> []" by blast
    show ?thesis
      using yielded [OF len] nd len strip_not_space_last [OF nei] by (simp add: str_def)
  qed
  show ?thesis using A B by blast
qed

theorem normalized_highlights_witness:
  "highlights (fst (training_docs
      \<lparr>train = [\<lparr>article = str ''x'', highlights = str '' a b ''\<rparr>], validation = [], test = []\<rparr>) ! 0)
   = str ''a b.''"
  using normalized_highlights [of "[\<lparr>article = str ''x'', highlights = str '' a b ''\<rparr>]"
      "training_docs \<lparr>train = [\<lparr>article = str ''x'', highlights = str '' a b ''\<rparr>],
         validation = [], test = []\<rparr>"
      "\<lparr>train = [\<lparr>article = str ''x'', highlights = str '' a b ''\<rparr>], validation = [], test = []\<rparr>"]
  by (simp add: strip_def str_def isspace_def)

text \<open>
  C3. Normalisation is meant not to raise on a document whose \<open>highlights\<close> strips to the
  empty string. The iterators index the last character without a guard: on the input
  below the first document is yielded and the second, whose \<open>highlights\<close> is one space,
  ends the iteration with \<open>IndexError\<close>.
\<close>

theorem training_docs_empty_highlights_raises:
  "training_docs
     \<lparr>train = [\<lparr>article = str ''a'', highlights = str ''b.''\<rparr>,
               \<lparr>article = str ''c'', highlights = str '' ''\<rparr>,
               \<lparr>article = str ''e'', highlights = str ''f''\<rparr>],
      validation = [], test = []\<rparr>
   = ([\<lparr>article = str ''a'', highlights = str ''b.''\<rparr>], Some IndexError)"
  by (simp add: training_docs_def process_doc_def strip_def str_def isspace_def)

section \<open>Prompt and target\<close>

text \<open>
  C8. \<open>doc_to_text\<close> is the article followed by the literal question template, and
  \<open>doc_to_target\<close> is one space followed by the \<open>highlights\<close> of the document.
\<close>

theorem doc_to_text_target:
  "doc_to_text d =
     article d @ str ''\<newline>\<newline>Question: What is a summary of the preceding text?\<newline>Answer:'' \<and>
   doc_to_target d = str '' '' @ highlights d \<and>
   length (doc_to_target d) = Suc (length (highlights d))"
  by (simp add: doc_to_text_def doc_to_target_def str_def)


section \<open>Preprocessing of summaries\<close>

lemma contains_iff: "contains old s \<longleftrightarrow> (\<exists>a b. s = a @ old @ b)"
proof (induction s)
  case Nil
  then show ?case by auto
next
  case (Cons c cs)
  show ?case
  proof
    assume "contains old (c # cs)"
    then consider "take (length old) (c # cs) = old" | "contains old cs" by auto
    then show "\<exists>a b. c # cs = a @ old @ b"
    proof cases
      case 1
      then have "c # cs = [] @ old @ drop (length old) (c # cs)"
        by (metis append_Nil append_take_drop_id)
      then show ?thesis by blast
    next
      case 2
      with Cons.IH obtain a b where "cs = a @ old @ b" by blast
      then have "c # cs = (c # a) @ old @ b" by simp
      then show ?thesis by blast
    qed
  next
    assume "\<exists>a b. c # cs = a @ old @ b"
    then obtain a b where ab: "c # cs = a @ old @ b" by blast
    show "contains old (c # cs)"
    proof (cases a)
      case Nil
      with ab have "take (length old) (c # cs) = old" by simp
      then show ?thesis by simp
    next
      case (Cons x a')
      with ab have "cs = a' @ old @ b" by simp
      with Cons.IH have "contains old cs" by blast
      then show ?thesis by simp
    qed
  qed
qed

lemma replace_no_occurrence:
  "old \<noteq> [] \<Longrightarrow> \<not> contains old s \<Longrightarrow> replace old new s = s"
  by (induction s) auto

lemma replace_at_front:
  "old \<noteq> [] \<Longrightarrow> replace old new (old @ b) = new @ replace old new b"
  by (cases old) simp_all

lemma replace_first_occurrence:
  "old \<noteq> [] \<Longrightarrow> \<not> contains old (a @ butlast old) \<Longrightarrow>
   replace old new (a @ old @ b) = a @ new @ replace old new b"
proof (induction a)
  case Nil
  then show ?case using replace_at_front [of old new b] by simp
next
  case (Cons x a')
  let ?s = "x # a' @ old @ b"
  have pre: "take (length old) ?s = take (length old) (x # a' @ butlast old)"
  proof -
    have "?s = (x # a' @ butlast old) @ ([last old] @ b)"
      using Cons.prems(1) by simp
    moreover have "length old \<le> length (x # a' @ butlast old)" by simp
    ultimately show ?thesis by (metis take_append diff_is_0_eq take_0 append_Nil2)
  qed
  from Cons.prems(2) have no: "take (length old) (x # a' @ butlast old) \<noteq> old"
    and rest: "\<not> contains old (a' @ butlast old)" by simp_all
  from no pre have "take (length old) ?s \<noteq> old" by simp
  then have "replace old new ?s = x # replace old new (a' @ old @ b)"
    using Cons.prems(1) by simp
  with Cons.IH [OF Cons.prems(1) rest] show ?case by simp
qed

text \<open>
  C2, as the code has it. A string without the three-character sequence space, period,
  space is left as it is. At the first occurrence the sequence becomes a period and a
  newline, the text before it is kept, and the text behind it is treated the same way;
  so an occurrence that shares its space with one already replaced stays. \<open>"A . B ."\<close>
  becomes \<open>"A.\nB ."\<close>: the final space and period are followed by nothing and stay.
\<close>

theorem prepare_summary_replaces:
  "(\<not> contains (str '' . '') s \<longrightarrow> prepare_summary s = s) \<and>
   (\<not> contains (str '' . '') (a @ str '' .'') \<longrightarrow>
      prepare_summary (a @ str '' . '' @ b) = a @ str ''.\<newline>'' @ prepare_summary b) \<and>
   prepare_summary (str ''A . B .'') = str ''A.\<newline>B .'' \<and>
   prepare_summary (str '' . . '') = str ''.\<newline>. ''"
proof -
  have ne: "str '' . '' \<noteq> []" and bl: "butlast (str '' . '') = str '' .''"
    by (simp_all add: str_def)
  have 1: "prepare_summary s = s" if "\<not> contains (str '' . '') s"
    using replace_no_occurrence [OF ne that] by (simp add: prepare_summary_def)
  have 2: "prepare_summary (a @ str '' . '' @ b) = a @ str ''.\<newline>'' @ prepare_summary b"
    if "\<not> contains (str '' . '') (a @ str '' .'')"
    using replace_first_occurrence [OF ne, of a "str ''.\<newline>''" b] that
    by (simp add: prepare_summary_def bl)
  have 3: "prepare_summary (str ''A . B .'') = str ''A.\<newline>B .''"
    by (simp add: prepare_summary_def str_def)
  have 4: "prepare_summary (str '' . . '') = str ''.\<newline>. ''"
    by (simp add: prepare_summary_def str_def)
  show ?thesis using 1 2 3 4 by blast
qed

theorem prepare_summary_replaces_witness:
  "\<not> contains (str '' . '') (str ''A.B'') \<and> prepare_summary (str ''A.B'') = str ''A.B'' \<and>
   \<not> contains (str '' . '') (str ''A'' @ str '' .'') \<and>
   prepare_summary (str ''A'' @ str '' . '' @ str ''B .'') =
     str ''A'' @ str ''.\<newline>'' @ prepare_summary (str ''B .'')"
  using prepare_summary_replaces [of "str ''A.B''" "str ''A''" "str ''B .''"]
  by (simp add: str_def)

text \<open>
  C2, as stated, gives \<open>"A.\nB."\<close> for \<open>"A . B ."\<close>; the code keeps the last space.
\<close>

theorem prepare_summary_example_counterexample:
  "prepare_summary (str ''A . B .'') \<noteq> str ''A.\<newline>B.''"
  by (simp add: prepare_summary_def str_def)


section \<open>Scoring results\<close>

lemma zip_take_min:
  "zip (take (min (length xs) (length ys)) xs) (take (min (length xs) (length ys)) ys) = zip xs ys"
proof -
  have "zip (take (min (length xs) (length ys)) xs) (take (min (length xs) (length ys)) ys)
        = take (length (zip xs ys)) (zip xs ys)"
    by (simp add: take_zip)
  then show ?thesis by simp
qed

lemma zip_nth_upt:
  "zip xs ys = map (\<lambda>i. (xs ! i, ys ! i)) [0..<min (length xs) (length ys)]"
  by (rule nth_equalityI) simp_all

lemma rouge_eval:
  "rouge lib refs preds =
     (let sc = (\<lambda>t. aggregate lib t
                 (map (\<lambda>(ref, pred). score lib t (prepare_summary ref) (prepare_summary pred))
                    (zip refs preds)))
      in case sc ''rouge1'' of None \<Rightarrow> Inl KeyError | Some v1 \<Rightarrow>
         (case sc ''rouge2'' of None \<Rightarrow> Inl KeyError | Some v2 \<Rightarrow>
         (case sc ''rougeLsum'' of None \<Rightarrow> Inl KeyError | Some v3 \<Rightarrow>
            Inr [(''rouge1'', times100 lib v1), (''rouge2'', times100 lib v2),
                 (''rougeLsum'', times100 lib v3)])))"
proof -
  have m: "map (\<lambda>(ref, pred). score lib t ref pred)
             (map (\<lambda>(ref, pred). (prepare_summary ref, prepare_summary pred)) (zip refs preds))
           = map (\<lambda>(ref, pred). score lib t (prepare_summary ref) (prepare_summary pred))
               (zip refs preds)" for t
    by (simp add: comp_def case_prod_unfold)
  show ?thesis
    unfolding rouge_def rouge_types_def Let_def m
    by (simp split: option.split)
qed

lemma rouge_cases:
  "rouge lib refs preds = Inl KeyError \<or>
   (\<exists>v1 v2 v3. rouge lib refs preds =
      Inr [(''rouge1'', v1), (''rouge2'', v2), (''rougeLsum'', v3)])"
  unfolding rouge_eval Let_def by (simp split: option.split)

lemma process_results_Cons:
  "process_results lib doc (r # rs) =
     map_sum id (map (\<lambda>(k, v). (if k = ''rougeLsum'' then ''rougeL'' else k, v)))
       (rouge lib [highlights doc] [strip r])"
  using rouge_cases [of lib "[highlights doc]" "[strip r]"]
  by (auto simp: process_results_def getitem_def)


text \<open>
  C10, as the code has it. \<open>rouge\<close> pairs references and predictions by position and
  scores as many pairs as the shorter list has: the result is that of the call on both
  lists cut to this length, whatever is behind is never read, and no check compares the
  lengths. Where the aggregate over the scored pairs has all three rouge types, \<open>rouge\<close>
  returns the dictionary of the three; where it lacks one, \<open>rouge\<close> raises \<open>KeyError\<close>,
  whether the lengths are equal or not.
\<close>

theorem rouge_scores_zipped_pairs:
  "rouge lib refs preds =
     rouge lib (take (min (length refs) (length preds)) refs)
       (take (min (length refs) (length preds)) preds) \<and>
   rouge lib refs preds =
     dict_comp rouge_types
       (\<lambda>t. case aggregate lib t
                   (map (\<lambda>i. score lib t (prepare_summary (refs ! i)) (prepare_summary (preds ! i)))
                      [0..<min (length refs) (length preds)])
            of None \<Rightarrow> Inl KeyError | Some v \<Rightarrow> Inr (times100 lib v)) \<and>
   ((\<forall>t \<in> set rouge_types.
       aggregate lib t
         (map (\<lambda>i. score lib t (prepare_summary (refs ! i)) (prepare_summary (preds ! i)))
            [0..<min (length refs) (length preds)]) \<noteq> None) \<longrightarrow>
    (\<exists>d. rouge lib refs preds = Inr d \<and> map fst d = rouge_types)) \<and>
   ((\<exists>t \<in> set rouge_types.
       aggregate lib t
         (map (\<lambda>i. score lib t (prepare_summary (refs ! i)) (prepare_summary (preds ! i)))
            [0..<min (length refs) (length preds)]) = None) \<longrightarrow>
    rouge lib refs preds = Inl KeyError)"
proof -
  let ?n = "min (length refs) (length preds)"
  let ?agg = "\<lambda>t. aggregate lib t
         (map (\<lambda>i. score lib t (prepare_summary (refs ! i)) (prepare_summary (preds ! i)))
            [0..<?n])"
  have 1: "rouge lib refs preds = rouge lib (take ?n refs) (take ?n preds)"
    unfolding rouge_def by (simp only: zip_take_min)
  have m: "map (\<lambda>(ref, pred). score lib t ref pred)
             (map (\<lambda>(ref, pred). (prepare_summary ref, prepare_summary pred)) (zip refs preds))
           = map (\<lambda>i. score lib t (prepare_summary (refs ! i)) (prepare_summary (preds ! i)))
               [0..<?n]" for t
    by (subst zip_nth_upt) (simp add: comp_def)
  have 2: "rouge lib refs preds =
     dict_comp rouge_types
       (\<lambda>t. case ?agg t of None \<Rightarrow> Inl KeyError | Some v \<Rightarrow> Inr (times100 lib v))"
    unfolding rouge_def Let_def m ..
  have 3: "\<exists>d. rouge lib refs preds = Inr d \<and> map fst d = rouge_types"
    if "\<forall>t \<in> set rouge_types. ?agg t \<noteq> None"
    using that unfolding 2 by (auto simp: rouge_types_def)
  have 4: "rouge lib refs preds = Inl KeyError"
    if "\<exists>t \<in> set rouge_types. ?agg t = None"
    using that unfolding 2 by (auto simp: rouge_types_def split: option.splits)
  from 1 2 3 4 show ?thesis by blast
qed

theorem rouge_scores_zipped_pairs_witness:
  "aggregate recording_lib ''rouge1''
     [score recording_lib ''rouge1'' (prepare_summary (str ''a'')) (prepare_summary (str ''c''))]
     \<noteq> None \<and>
   rouge recording_lib [str ''a'', str ''b''] [str ''c''] =
     Inr [(''rouge1'', [(''rouge1'', str ''a'', str ''c'')]),
          (''rouge2'', [(''rouge2'', str ''a'', str ''c'')]),
          (''rougeLsum'', [(''rougeLsum'', str ''a'', str ''c'')])] \<and>
   aggregate recording_lib ''rouge1'' [] = None \<and>
   rouge recording_lib [str ''a''] [] = Inl KeyError"
  using rouge_scores_zipped_pairs [of recording_lib "[str ''a'', str ''b'']" "[str ''c'']"]
    rouge_scores_zipped_pairs [of recording_lib "[str ''a'']" "[]"]
  by (simp add: rouge_eval recording_lib_def rouge_types_def prepare_summary_def str_def)

text \<open>
  C10, as stated, has no error raised when the lengths differ. With no reference and one
  prediction nothing is scored, the aggregate has no entry, and reading the first rouge
  type from it raises \<open>KeyError\<close>.
\<close>

theorem rouge_unequal_lengths_counterexample:
  "length ([] :: pystr list) \<noteq> length [str ''x''] \<and>
   rouge recording_lib [] [str ''x''] = Inl KeyError"
  by (simp add: rouge_eval recording_lib_def)

text \<open>
  C9. \<open>process_results\<close> raises \<open>IndexError\<close> on an empty results list; otherwise it
  is \<open>rouge\<close> on the reference and the stripped first completion, with the key
  \<open>rougeLsum\<close> renamed, so a completion and its stripped form give the same result.
  With the recording scorer, the prediction that reaches the scorer for \<open>" a b. "\<close> is
  \<open>"a b."\<close>.
\<close>

theorem process_results_strips_completion:
  "process_results lib doc [] = Inl IndexError \<and>
   process_results lib doc (r # rs) =
     map_sum id (map (\<lambda>(k, v). (if k = ''rougeLsum'' then ''rougeL'' else k, v)))
       (rouge lib [highlights doc] [strip r]) \<and>
   process_results lib doc (r # rs) = process_results lib doc [strip r] \<and>
   process_results recording_lib \<lparr>article = str ''x'', highlights = str ''a.''\<rparr> [str '' a b. '']
     = Inr [(''rouge1'', [(''rouge1'', str ''a.'', str ''a b.'')]),
            (''rouge2'', [(''rouge2'', str ''a.'', str ''a b.'')]),
            (''rougeL'', [(''rougeLsum'', str ''a.'', str ''a b.'')])]"
proof -
  have 1: "process_results lib doc [] = Inl IndexError"
    by (simp add: process_results_def)
  have 3: "process_results lib doc (r # rs) = process_results lib doc [strip r]"
    by (simp only: process_results_Cons strip_idem)
  have 4: "process_results recording_lib \<lparr>article = str ''x'', highlights = str ''a.''\<rparr> [str '' a b. '']
     = Inr [(''rouge1'', [(''rouge1'', str ''a.'', str ''a b.'')]),
            (''rouge2'', [(''rouge2'', str ''a.'', str ''a b.'')]),
            (''rougeL'', [(''rougeLsum'', str ''a.'', str ''a b.'')])]"
    by (simp add: process_results_Cons rouge_eval recording_lib_def prepare_summary_def
        strip_def isspace_def str_def)
  from 1 process_results_Cons [of lib doc r rs] 3 4 show ?thesis by blast
qed

text \<open>
  C4, as the code has it. The rouge types requested from the scorer do not include
  \<open>rougeL\<close>. What \<open>process_results\<close> reports under the name \<open>rougeL\<close> is the aggregate of
  the scorer's \<open>rougeLsum\<close> score, the summary-level variant that works sentence by
  sentence on newline-separated text, computed on the reference and the stripped
  completion after the preprocessing has put a newline at each sentence boundary.
\<close>

theorem rougeL_is_rougeLsum:
  "''rougeL'' \<notin> set rouge_types \<and>
   (process_results lib doc (r # rs) = Inr out \<longrightarrow>
      (\<exists>v. aggregate lib ''rougeLsum''
              [score lib ''rougeLsum'' (prepare_summary (highlights doc))
                 (prepare_summary (strip r))] = Some v \<and>
           getitem out ''rougeL'' = Inr (times100 lib v)))"
proof -
  have "\<exists>v. aggregate lib ''rougeLsum''
              [score lib ''rougeLsum'' (prepare_summary (highlights doc))
                 (prepare_summary (strip r))] = Some v \<and>
           getitem out ''rougeL'' = Inr (times100 lib v)"
    if "process_results lib doc (r # rs) = Inr out"
    using that unfolding process_results_Cons rouge_eval Let_def
    by (auto simp: getitem_def split: option.splits)
  then show ?thesis by (simp add: rouge_types_def)
qed

theorem rougeL_is_rougeLsum_witness:
  "process_results recording_lib \<lparr>article = str ''x'', highlights = str ''a b . c d.''\<rparr>
       [str ''c d . a b.'', str ''unused'']
     = Inr [(''rouge1'', [(''rouge1'', str ''a b.\<newline>c d.'', str ''c d.\<newline>a b.'')]),
            (''rouge2'', [(''rouge2'', str ''a b.\<newline>c d.'', str ''c d.\<newline>a b.'')]),
            (''rougeL'', [(''rougeLsum'', str ''a b.\<newline>c d.'', str ''c d.\<newline>a b.'')])] \<and>
   getitem [(''rouge1'', [(''rouge1'', str ''a b.\<newline>c d.'', str ''c d.\<newline>a b.'')]),
            (''rouge2'', [(''rouge2'', str ''a b.\<newline>c d.'', str ''c d.\<newline>a b.'')]),
            (''rougeL'', [(''rougeLsum'', str ''a b.\<newline>c d.'', str ''c d.\<newline>a b.'')])]
       ''rougeL''
     = Inr (times100 recording_lib [(''rougeLsum'', str ''a b.\<newline>c d.'', str ''c d.\<newline>a b.'')])"
  using rougeL_is_rougeLsum [of recording_lib
      "\<lparr>article = str ''x'', highlights = str ''a b . c d.''\<rparr>" "str ''c d . a b.''"
      "[str ''unused'']"]
  by (simp add: process_results_Cons rouge_eval recording_lib_def prepare_summary_def
      strip_def isspace_def str_def getitem_def)

text \<open>
  C4, as stated, makes the value reported as \<open>rougeL\<close> the whole-sequence score (rouge
  type \<open>rougeL\<close>) of the two summaries. With the recording scorer the value reported is
  not that one: it is the \<open>rougeLsum\<close> score of the newline-separated texts.
\<close>

theorem rougeL_whole_summary_counterexample:
  "getitem
     (projr (process_results recording_lib
        \<lparr>article = str ''x'', highlights = str ''a b . c d.''\<rparr> [str ''c d . a b.'']))
     ''rougeL''
   \<noteq> Inr [(''rougeL'', str ''a b . c d.'', str ''c d . a b.'')]"
  by (simp add: process_results_Cons rouge_eval recording_lib_def prepare_summary_def
      strip_def isspace_def str_def getitem_def)


section \<open>Pruning filter\<close>

lemma get_prune_text_eq:
  "get_prune_text sample = Inr (doc_to_text (hd (process_doc sample)))"
  by (simp add: get_prune_text_def process_doc_def)

lemma check_tokenizers_log:
  "check_tokenizers T mx text log =
     (fst (check_tokenizers T mx text []), log @ snd (check_tokenizers T mx text []))"
proof (induction T arbitrary: log)
  case Nil
  then show ?case by simp
next
  case (Cons tok T)
  show ?case
  proof (cases mx)
    case None
    then show ?thesis by simp
  next
    case (Some m)
    show ?thesis
      using Cons.IH [of "log @ [(name_or_path tok, text)]"]
        Cons.IH [of "[(name_or_path tok, text)]"]
      by (simp add: Some Let_def)
  qed
qed

lemma check_tokenizers_Some:
  "check_tokenizers T (Some m) text log =
     (Inr (\<forall>tok \<in> set T. int (length (input_ids tok text)) \<le> m),
      log @ map (\<lambda>tok. (name_or_path tok, text))
              (takeWhile (\<lambda>tok. int (length (input_ids tok text)) \<le> m) T @
               take 1 (dropWhile (\<lambda>tok. int (length (input_ids tok text)) \<le> m) T)))"
  by (induction T arbitrary: log) (auto simp: Let_def)

lemma prune_filter_hit:
  "get_prune_text d = Inr text \<Longrightarrow> cache st text = Some b \<Longrightarrow>
   prune_filter T mx st d = (Inr b, st)"
  by (simp add: prune_filter_def)

lemma prune_filter_miss:
  "get_prune_text d = Inr text \<Longrightarrow> cache st text = None \<Longrightarrow>
   prune_filter T mx st d =
     (case fst (check_tokenizers T mx text []) of
        Inl e \<Rightarrow> (Inl e, st\<lparr>calls := calls st @ snd (check_tokenizers T mx text [])\<rparr>)
      | Inr keep \<Rightarrow> (Inr keep, st\<lparr>cache := (cache st)(text \<mapsto> keep),
                        calls := calls st @ snd (check_tokenizers T mx text [])\<rparr>))"
  by (subst prune_filter_def, subst check_tokenizers_log) (simp split: sum.split)

lemma prune_filter_verdict:
  assumes "cache_ok T mx (cache st)"
  shows "fst (prune_filter T mx st d) = filter_uncached T mx d"
proof -
  let ?text = "doc_to_text (hd (process_doc d))"
  have t: "get_prune_text d = Inr ?text" by (rule get_prune_text_eq)
  show ?thesis
  proof (cases "cache st ?text")
    case None
    show ?thesis
      by (simp add: prune_filter_miss [OF t None] filter_uncached_def t split: sum.split)
  next
    case (Some b)
    with assms have "fst (check_tokenizers T mx ?text []) = Inr b"
      by (simp add: cache_ok_def)
    then show ?thesis
      by (simp add: prune_filter_hit [OF t Some] filter_uncached_def t)
  qed
qed

lemma prune_filter_cache_ok:
  assumes "cache_ok T mx (cache st)"
  shows "cache_ok T mx (cache (snd (prune_filter T mx st d)))"
proof -
  let ?text = "doc_to_text (hd (process_doc d))"
  have t: "get_prune_text d = Inr ?text" by (rule get_prune_text_eq)
  show ?thesis
  proof (cases "cache st ?text")
    case None
    show ?thesis
      using assms
      by (cases "fst (check_tokenizers T mx ?text [])")
         (auto simp: prune_filter_miss [OF t None] cache_ok_def)
  next
    case (Some b)
    then show ?thesis using assms by (simp add: prune_filter_hit [OF t Some])
  qed
qed

lemma run_cache_ok:
  "cache_ok T mx (cache st) \<Longrightarrow>
   cache_ok T mx (cache (foldl (\<lambda>st d. snd (prune_filter T mx st d)) st docs))"
  by (induction docs arbitrary: st) (simp_all add: prune_filter_cache_ok)

lemma prune_filter_cache_persists:
  assumes "cache st text = Some b"
  shows "cache (snd (prune_filter T mx st d)) text = Some b"
proof -
  let ?text = "doc_to_text (hd (process_doc d))"
  have t: "get_prune_text d = Inr ?text" by (rule get_prune_text_eq)
  show ?thesis
  proof (cases "cache st ?text")
    case None
    with assms have "text \<noteq> ?text" by auto
    then show ?thesis
      using assms
      by (cases "fst (check_tokenizers T mx ?text [])")
         (simp_all add: prune_filter_miss [OF t None])
  next
    case (Some c)
    then show ?thesis using assms by (simp add: prune_filter_hit [OF t Some])
  qed
qed

lemma run_cache_persists:
  "cache st text = Some b \<Longrightarrow>
   cache (foldl (\<lambda>st d. snd (prune_filter T mx st d)) st docs) text = Some b"
  by (induction docs arbitrary: st) (simp_all add: prune_filter_cache_persists)

lemma prune_filter_caches_verdict:
  assumes "fst (prune_filter T mx st a) = Inr keep" and "get_prune_text a = Inr text"
  shows "cache (snd (prune_filter T mx st a)) text = Some keep"
proof (cases "cache st text")
  case None
  show ?thesis
    using assms(1)
    by (cases "fst (check_tokenizers T mx text [])")
       (simp_all add: prune_filter_miss [OF assms(2) None])
next
  case (Some c)
  then show ?thesis using assms(1) by (simp add: prune_filter_hit [OF assms(2) Some])
qed


lemma cache_ok_empty: "cache_ok T mx Map.empty"
  by (simp add: cache_ok_def)

text \<open>
  C5. In a pass that starts with the empty cache, whatever samples have been filtered
  before, \<open>_filter\<close> gives a sample the verdict (or the error) that the check recomputed
  without a cache gives it. Once \<open>_filter\<close> has returned a verdict for a sample, a
  later call on a sample with the same prompt text, with any samples filtered in
  between, returns this verdict and leaves the state as it was: the cache is not
  written and no tokenizer is invoked.
\<close>

theorem prune_filter_memoizes:
  "fst (prune_filter T mx
          (foldl (\<lambda>st d. snd (prune_filter T mx st d)) \<lparr>cache = Map.empty, calls = []\<rparr> docs) d)
     = filter_uncached T mx d \<and>
   (fst (prune_filter T mx st a) = Inr keep \<and> get_prune_text a = get_prune_text b \<longrightarrow>
      prune_filter T mx (foldl (\<lambda>st d. snd (prune_filter T mx st d))
                           (snd (prune_filter T mx st a)) between) b
        = (Inr keep, foldl (\<lambda>st d. snd (prune_filter T mx st d))
                       (snd (prune_filter T mx st a)) between))"
proof -
  let ?run = "foldl (\<lambda>st d. snd (prune_filter T mx st d))"
  have "cache_ok T mx (cache (?run \<lparr>cache = Map.empty, calls = []\<rparr> docs))"
    by (rule run_cache_ok) (simp add: cache_ok_empty)
  then have 1: "fst (prune_filter T mx (?run \<lparr>cache = Map.empty, calls = []\<rparr> docs) d)
      = filter_uncached T mx d"
    by (rule prune_filter_verdict)
  have 2: "prune_filter T mx (?run (snd (prune_filter T mx st a)) between) b
        = (Inr keep, ?run (snd (prune_filter T mx st a)) between)"
    if v: "fst (prune_filter T mx st a) = Inr keep" and same: "get_prune_text a = get_prune_text b"
  proof -
    let ?text = "doc_to_text (hd (process_doc a))"
    have ta: "get_prune_text a = Inr ?text" by (rule get_prune_text_eq)
    with same have tb: "get_prune_text b = Inr ?text" by simp
    have "cache (snd (prune_filter T mx st a)) ?text = Some keep"
      using v ta by (rule prune_filter_caches_verdict)
    then have "cache (?run (snd (prune_filter T mx st a)) between) ?text = Some keep"
      by (rule run_cache_persists)
    with tb show ?thesis by (rule prune_filter_hit)
  qed
  from 1 2 show ?thesis by blast
qed

theorem prune_filter_memoizes_witness:
  "prune_filter [\<lparr>name_or_path = ''t'', input_ids = (\<lambda>text. text)\<rparr>] (Some 100)
     \<lparr>cache = Map.empty, calls = []\<rparr> \<lparr>article = str ''ab'', highlights = str ''c.''\<rparr>
     = (Inr True,
        \<lparr>cache = [doc_to_text \<lparr>article = str ''ab'', highlights = str ''c.''\<rparr> \<mapsto> True],
          calls = [(''t'', doc_to_text \<lparr>article = str ''ab'', highlights = str ''c.''\<rparr>)]\<rparr>) \<and>
   prune_filter [\<lparr>name_or_path = ''t'', input_ids = (\<lambda>text. text)\<rparr>] (Some 100)
     \<lparr>cache = [doc_to_text \<lparr>article = str ''ab'', highlights = str ''c.''\<rparr> \<mapsto> True],
      calls = [(''t'', doc_to_text \<lparr>article = str ''ab'', highlights = str ''c.''\<rparr>)]\<rparr>
     \<lparr>article = str '' ab '', highlights = str ''other''\<rparr>
     = (Inr True,
        \<lparr>cache = [doc_to_text \<lparr>article = str ''ab'', highlights = str ''c.''\<rparr> \<mapsto> True],
          calls = [(''t'', doc_to_text \<lparr>article = str ''ab'', highlights = str ''c.''\<rparr>)]\<rparr>)"
proof -
  let ?T = "[\<lparr>name_or_path = ''t'', input_ids = (\<lambda>text. text)\<rparr>]"
  let ?a = "\<lparr>article = str ''ab'', highlights = str ''c.''\<rparr>"
  let ?b = "\<lparr>article = str '' ab '', highlights = str ''other''\<rparr>"
  let ?st = "\<lparr>cache = Map.empty, calls = []\<rparr>"
  have same: "get_prune_text ?a = get_prune_text ?b"
    by (simp add: get_prune_text_def process_doc_def doc_to_text_def strip_def isspace_def str_def)
  have first: "prune_filter ?T (Some 100) ?st ?a =
      (Inr True, \<lparr>cache = [doc_to_text ?a \<mapsto> True], calls = [(''t'', doc_to_text ?a)]\<rparr>)"
    by (simp add: prune_filter_def get_prune_text_def process_doc_def doc_to_text_def
        strip_def isspace_def str_def)
  then have v: "fst (prune_filter ?T (Some 100) ?st ?a) = Inr True" by simp
  from prune_filter_memoizes [of ?T "Some 100" "[]" ?a ?st ?a True ?b "[]"] v same first
  show ?thesis by simp
qed




text \<open>
  The whole pass: with the tokenizers loaded and an integer budget, \<open>prune\<close> keeps in
  each split, in order, the documents whose prompt text is within the budget under every
  tokenizer, and never fails.
\<close>

lemma filter_split_within_budget:
  "cache_ok T (Some m) (cache st) \<Longrightarrow>
   \<exists>st'. filter_split (prune_filter T (Some m)) st docs =
     (Inr (filter (\<lambda>d. \<forall>tok \<in> set T.
              int (length (input_ids tok (doc_to_text (hd (process_doc d))))) \<le> m) docs), st') \<and>
     cache_ok T (Some m) (cache st')"
proof (induction docs arbitrary: st)
  case Nil
  then show ?case by simp
next
  case (Cons d docs)
  let ?P = "\<lambda>d. \<forall>tok \<in> set T. int (length (input_ids tok (doc_to_text (hd (process_doc d))))) \<le> m"
  obtain v st1 where pf0: "prune_filter T (Some m) st d = (v, st1)"
    by (cases "prune_filter T (Some m) st d")
  have "fst (prune_filter T (Some m) st d) = Inr (?P d)"
    using prune_filter_verdict [OF Cons.prems, of d]
    by (simp add: filter_uncached_def get_prune_text_eq check_tokenizers_Some)
  with pf0 have pf: "prune_filter T (Some m) st d = (Inr (?P d), st1)" by simp
  have "cache_ok T (Some m) (cache st1)"
    using prune_filter_cache_ok [OF Cons.prems, of d] pf0 by simp
  from Cons.IH [OF this] obtain st' where
    r: "filter_split (prune_filter T (Some m)) st1 docs = (Inr (filter ?P docs), st')"
    and ok: "cache_ok T (Some m) (cache st')" by blast
  have "filter_split (prune_filter T (Some m)) st (d # docs) = (Inr (filter ?P (d # docs)), st')"
    by (simp add: pf r)
  with ok show ?case by blast
qed

lemma prune_within_budget:
  assumes "PRUNE_TOKENIZERS cfg = Some names" and "load_tokenizers from_pretrained names = Inr T"
    and "PRUNE_MAX_TOKENS cfg = Some m"
  shows "prune cfg from_pretrained ds =
    Inr \<lparr>train = filter (\<lambda>d. \<forall>tok \<in> set T.
              int (length (input_ids tok (doc_to_text (hd (process_doc d))))) \<le> m) (train ds),
         validation = filter (\<lambda>d. \<forall>tok \<in> set T.
              int (length (input_ids tok (doc_to_text (hd (process_doc d))))) \<le> m) (validation ds),
         test = filter (\<lambda>d. \<forall>tok \<in> set T.
              int (length (input_ids tok (doc_to_text (hd (process_doc d))))) \<le> m) (test ds)\<rparr>"
proof -
  let ?P = "\<lambda>d. \<forall>tok \<in> set T. int (length (input_ids tok (doc_to_text (hd (process_doc d))))) \<le> m"
  let ?f = "prune_filter T (Some m)"
  have "cache_ok T (Some m) (cache \<lparr>cache = Map.empty, calls = []\<rparr>)"
    by (simp add: cache_ok_empty)
  from filter_split_within_budget [OF this, of "train ds"] obtain st1 where
    1: "filter_split ?f \<lparr>cache = Map.empty, calls = []\<rparr> (train ds) = (Inr (filter ?P (train ds)), st1)"
    and ok1: "cache_ok T (Some m) (cache st1)" by blast
  from filter_split_within_budget [OF ok1, of "validation ds"] obtain st2 where
    2: "filter_split ?f st1 (validation ds) = (Inr (filter ?P (validation ds)), st2)"
    and ok2: "cache_ok T (Some m) (cache st2)" by blast
  from filter_split_within_budget [OF ok2, of "test ds"] obtain st3 where
    3: "filter_split ?f st2 (test ds) = (Inr (filter ?P (test ds)), st3)" by blast
  show ?thesis by (simp add: prune_def assms Let_def 1 2 3)
qed

lemma download_base: "download CNN_DailyMail from_pretrained loaded = Inr loaded"
  by (simp add: download_def CNN_DailyMail_def)

lemma download_short:
  assumes "from_pretrained ''PY007/TinyLlama-1.1B-Chat-v0.3'' = Inr tok"
  shows "download (CNN_DailyMail_Short n) from_pretrained ds =
    Inr \<lparr>train = filter (\<lambda>d. int (length (input_ids tok (doc_to_text (hd (process_doc d)))))
                              \<le> 1280) (train ds),
         validation = filter (\<lambda>d. int (length (input_ids tok (doc_to_text (hd (process_doc d)))))
                              \<le> 1280) (validation ds),
         test = filter (\<lambda>d. int (length (input_ids tok (doc_to_text (hd (process_doc d)))))
                              \<le> 1280) (test ds)\<rparr>"
  using prune_within_budget [of "CNN_DailyMail_Short n" "[''PY007/TinyLlama-1.1B-Chat-v0.3'']"
      from_pretrained "[tok]" 1280 ds] assms
  by (simp add: download_def CNN_DailyMail_Short_def)

lemma download_eq:
  "download cfg from_pretrained loaded =
     (case PRUNE_TOKENIZERS cfg of
        None \<Rightarrow> Inr loaded
      | Some names \<Rightarrow> prune cfg from_pretrained loaded)"
  by (simp add: download_def split: option.split)

text \<open>
  C1. Pruning is meant to run only when both \<open>PRUNE_TOKENIZERS\<close> and
  \<open>PRUNE_MAX_TOKENS\<close> are set. \<open>download\<close> tests \<open>PRUNE_TOKENIZERS\<close> twice and never the
  budget: for a variant with a tokenizer list and no budget it runs \<open>prune\<close>, which
  fails at the first comparison of a length with \<open>None\<close>, where the dataset should have
  been left as loaded.
\<close>

theorem download_prunes_without_budget:
  "download
     \<lparr>PRUNE_TOKENIZERS = Some [''t''], PRUNE_MAX_TOKENS = None, PRUNE_NUM_PROC = None\<rparr>
     (\<lambda>name. Inr \<lparr>name_or_path = name, input_ids = (\<lambda>text. text)\<rparr>)
     \<lparr>train = [\<lparr>article = str ''a'', highlights = str ''b.''\<rparr>], validation = [], test = []\<rparr>
   = Inl TypeError"
  by (simp add: download_def prune_def prune_filter_def get_prune_text_def process_doc_def)

end
